theory Spec2Isabelle
  imports Complex_Main "HOL-Library.Word"
begin

unbundle bit_operations_syntax

section \<open>JavaScript values used by shamir.js\<close>

text \<open>
  Strings are lists of characters (one \<open>char\<close> per code unit).  A number of the program is a
  \<open>jsnum\<close>: \<open>Some n\<close> is the non-negative integer \<open>n\<close>, \<open>None\<close> is \<open>NaN\<close> or \<open>undefined\<close>
  (a hole of an array, a table read out of range).  Both behave alike wherever the source
  meets them: \<open>undefined + n\<close> and \<open>NaN + n\<close> are \<open>NaN\<close>, \<open>a[NaN]\<close> and \<open>a[undefined]\<close> are
  \<open>undefined\<close>, \<open>^\<close> reads both as 0 and \<open>if (v)\<close> takes both for false.  All numbers of
  the program are table entries, share ids and bytes parsed from at most eight binary
  digits, far below \<open>2^31\<close>, where the 32-bit conversions of \<open>^\<close>, \<open>&\<close> and \<open><<\<close> change nothing.
\<close>

type_synonym jsnum = "nat option"

datatype error =
    InvalidHexCharacter
  | InvalidBinaryCharacter
  | PaddingTooLarge
  | InvalidShareId
  | InvalidShareData
  | SecretNotString
  | TotalSharesInvalid
  | TotalSharesTooLarge int
  | RequiredSharesInvalid
  | RequiredSharesTooLarge int
  | RequiredAboveTotal
  | PadLengthInvalid
  | ShareIdOutOfRange
  | TypeError

definition fieldBits :: nat where
  "fieldBits = 8"

definition maxShares :: nat where
  "maxShares = 255"

text \<open>Array reads and writes: a read out of range is \<open>undefined\<close>, a write past the end
  extends the array with holes.\<close>

definition js_get :: "'a option list \<Rightarrow> nat \<Rightarrow> 'a option" where
  "js_get xs i = (if i < length xs then xs ! i else None)"

definition js_set :: "'a option list \<Rightarrow> nat \<Rightarrow> 'a option \<Rightarrow> 'a option list" where
  "js_set xs i v =
     (if i < length xs then xs[i := v]
      else xs @ replicate (i - length xs) None @ [v])"

text \<open>\<open>a[k]\<close> for a computed index \<open>k\<close>.\<close>

fun js_index :: "'a option list \<Rightarrow> jsnum \<Rightarrow> 'a option" where
  "js_index xs None = None"
| "js_index xs (Some k) = js_get xs k"

fun js_add :: "jsnum \<Rightarrow> jsnum \<Rightarrow> jsnum" where
  "js_add (Some a) (Some b) = Some (a + b)"
| "js_add _ _ = None"

fun js_mod :: "jsnum \<Rightarrow> nat \<Rightarrow> jsnum" where
  "js_mod (Some a) m = (if m = 0 then None else Some (a mod m))"
| "js_mod None m = None"

fun js_int32 :: "jsnum \<Rightarrow> nat" where
  "js_int32 (Some a) = a"
| "js_int32 None = 0"

definition js_xor :: "jsnum \<Rightarrow> jsnum \<Rightarrow> nat" where
  "js_xor a b = js_int32 a XOR js_int32 b"

text \<open>\<open>s.slice(a, b)\<close> for \<open>0 \<le> a\<close>, \<open>0 \<le> b\<close>, and \<open>s.slice(-k)\<close> for \<open>k > 0\<close>.\<close>

definition js_slice :: "string \<Rightarrow> nat \<Rightarrow> nat \<Rightarrow> string" where
  "js_slice s a b = take (b - a) (drop a s)"

definition js_slice_last :: "string \<Rightarrow> nat \<Rightarrow> string" where
  "js_slice_last s k = drop (length s - k) s"

subsection \<open>Digits: \<open>Number.prototype.toString(radix)\<close> and \<open>parseInt(s, radix)\<close>\<close>

definition digitChar :: "nat \<Rightarrow> char" where
  "digitChar d = ''0123456789abcdefghijklmnopqrstuvwxyz'' ! d"

definition digitValue :: "nat \<Rightarrow> char \<Rightarrow> nat option" where
  "digitValue radix c =
     (case map_of
        [(CHR ''0'', 0), (CHR ''1'', 1), (CHR ''2'', 2), (CHR ''3'', 3), (CHR ''4'', 4),
         (CHR ''5'', 5), (CHR ''6'', 6), (CHR ''7'', 7), (CHR ''8'', 8), (CHR ''9'', 9),
         (CHR ''a'', 10), (CHR ''b'', 11), (CHR ''c'', 12), (CHR ''d'', 13), (CHR ''e'', 14),
         (CHR ''f'', 15), (CHR ''A'', 10), (CHR ''B'', 11), (CHR ''C'', 12), (CHR ''D'', 13),
         (CHR ''E'', 14), (CHR ''F'', 15)] c of
        None \<Rightarrow> None
      | Some (v :: nat) \<Rightarrow> if v < radix then Some v else None)"

function toStringRadix :: "nat \<Rightarrow> nat \<Rightarrow> string" where
  "toStringRadix radix n =
     (if radix < 2 \<or> n < radix then [digitChar n]
      else toStringRadix radix (n div radix) @ [digitChar (n mod radix)])"
  by pat_completeness auto
termination
  by (relation "measure snd") auto

declare toStringRadix.simps [simp del]

text \<open>\<open>v.toString(radix)\<close> for the radices 2 and 16 of the source; \<open>NaN\<close> prints as \<open>NaN\<close>.\<close>

fun numToString :: "jsnum \<Rightarrow> nat \<Rightarrow> string" where
  "numToString None radix = ''NaN''"
| "numToString (Some n) radix = toStringRadix radix n"

text \<open>
  \<open>parseInt(s, radix)\<close> for radix 2 and 16 on the strings the program parses: it reads the
  longest prefix of digits of the radix and is \<open>NaN\<close> when that prefix is empty.  (White
  space, a sign and a \<open>0x\<close> prefix, which \<open>parseInt\<close> would skip, cannot reach it: secrets
  and share strings are checked character by character to be hexadecimal digits, and bit
  strings are built from \<open>toString(2)\<close> and \<open>0\<close> padding.)
\<close>

definition parseInt :: "string \<Rightarrow> nat \<Rightarrow> jsnum" where
  "parseInt s radix =
     (let ds = takeWhile (\<lambda>c. digitValue radix c \<noteq> None) s
      in if ds = [] then None
         else Some (foldl (\<lambda>acc c. acc * radix + the (digitValue radix c)) 0 ds))"

section \<open>The logarithm and exponent tables\<close>

text \<open>One round of the loop of lines 11 to 21, on \<open>(calculatedLogarithms, calculatedExponents, x)\<close>.\<close>

definition tableStep ::
  "nat \<Rightarrow> nat option list \<times> nat option list \<times> nat \<Rightarrow> nat option list \<times> nat option list \<times> nat" where
  "tableStep i s =
     (case s of (logs, exps, x) \<Rightarrow>
        let exps' = js_set exps i (Some x);
            logs' = js_set logs x (Some i);
            x' = push_bit 1 x;
            x'' = (if x' AND 256 \<noteq> 0 then x' XOR 0x11d else x')
        in (logs', exps', x''))"

definition buildTables :: "nat \<Rightarrow> nat option list \<times> nat option list \<times> nat" where
  "buildTables n = fold tableStep [0..<n] ([], [], 1)"

definition calculatedLogarithms :: "nat option list" where
  "calculatedLogarithms = fst (buildTables 256)"

definition calculatedExponents :: "nat option list" where
  "calculatedExponents = fst (snd (buildTables 256))"

section \<open>String helpers\<close>

definition zeroPadding :: string where
  "zeroPadding = replicate 1023 CHR ''0''"

text \<open>\<open>padLeft(stringToPad, multipleOfBits)\<close>; callers that omit the width pass \<open>fieldBits\<close>.\<close>

definition padLeft :: "string \<Rightarrow> nat \<Rightarrow> error + string" where
  "padLeft stringToPad multipleOfBits =
     (if multipleOfBits = 0 \<or> multipleOfBits = 1 then Inr stringToPad
      else if multipleOfBits > 1024 then Inl PaddingTooLarge
      else
        let bitsToPad = (if stringToPad \<noteq> [] then length stringToPad mod multipleOfBits else 0)
        in if bitsToPad \<noteq> 0
           then Inr (js_slice_last (zeroPadding @ stringToPad)
                      (multipleOfBits - bitsToPad + length stringToPad))
           else Inr stringToPad)"

fun hexadecimalToBinary_loop :: "string \<Rightarrow> string \<Rightarrow> error + string" where
  "hexadecimalToBinary_loop [] binaryString = Inr binaryString"
| "hexadecimalToBinary_loop (c # cs) binaryString =
     (case parseInt [c] 16 of
        None \<Rightarrow> Inl InvalidHexCharacter
      | Some num \<Rightarrow>
          (case padLeft (numToString (Some num) 2) 4 of
             Inl e \<Rightarrow> Inl e
           | Inr p \<Rightarrow> hexadecimalToBinary_loop cs (p @ binaryString)))"

text \<open>The loop runs from the last character to the first.\<close>

definition hexadecimalToBinary :: "string \<Rightarrow> error + string" where
  "hexadecimalToBinary hexString = hexadecimalToBinary_loop (rev hexString) []"

fun binaryToHexadecimal_loop :: "string \<Rightarrow> nat \<Rightarrow> string \<Rightarrow> error + string" where
  "binaryToHexadecimal_loop binaryString i hexadecimalString =
     (if i \<ge> 4 then
        (case parseInt (js_slice binaryString (i - 4) i) 2 of
           None \<Rightarrow> Inl InvalidBinaryCharacter
         | Some num \<Rightarrow>
             binaryToHexadecimal_loop binaryString (i - 4)
               (numToString (Some num) 16 @ hexadecimalString))
      else Inr hexadecimalString)"

declare binaryToHexadecimal_loop.simps [simp del]

definition binaryToHexadecimal :: "string \<Rightarrow> error + string" where
  "binaryToHexadecimal binaryString =
     (case padLeft binaryString 4 of
        Inl e \<Rightarrow> Inl e
      | Inr padded \<Rightarrow> binaryToHexadecimal_loop padded (length padded) [])"

function splitNumStringToIntArray_loop :: "string \<Rightarrow> nat \<Rightarrow> jsnum list \<Rightarrow> jsnum list" where
  "splitNumStringToIntArray_loop stringToSplit i parts =
     (if i > fieldBits then
        splitNumStringToIntArray_loop stringToSplit (i - fieldBits)
          (parts @ [parseInt (js_slice stringToSplit (i - fieldBits) i) 2])
      else parts @ [parseInt (js_slice stringToSplit 0 i) 2])"
  by pat_completeness auto
termination
  by (relation "measure (\<lambda>(s, i, parts). i)") (auto simp: fieldBits_def)

declare splitNumStringToIntArray_loop.simps [simp del]

text \<open>\<open>padLength\<close> is \<open>None\<close> when the caller leaves it out; \<open>if (padLength)\<close> also skips 0.\<close>

definition splitNumStringToIntArray :: "string \<Rightarrow> nat option \<Rightarrow> error + jsnum list" where
  "splitNumStringToIntArray stringToSplit padLength =
     (case (if padLength \<noteq> None \<and> padLength \<noteq> Some 0
            then padLeft stringToSplit (the padLength) else Inr stringToSplit) of
        Inl e \<Rightarrow> Inl e
      | Inr s \<Rightarrow> Inr (splitNumStringToIntArray_loop s (length s) []))"

section \<open>Share operations\<close>

record share =
  share_id :: nat
  share_data :: string

text \<open>The groups of \<open>/^([a-fA-F\d]{2})([a-fA-F\d]+)$/\<close>, or \<open>None\<close> when the string does not match.\<close>

definition shareRegex :: "string \<Rightarrow> (string \<times> string) option" where
  "shareRegex s =
     (if length s \<ge> 3 \<and> list_all (\<lambda>c. digitValue 16 c \<noteq> None) s
      then Some (take 2 s, drop 2 s) else None)"

definition extractShareComponents :: "string \<Rightarrow> error + share" where
  "extractShareComponents s =
     (let shareComponents = shareRegex s;
          idn = (case shareComponents of Some (g1, g2) \<Rightarrow> parseInt g1 16 | None \<Rightarrow> None)
      in case idn of
           None \<Rightarrow> Inl InvalidShareId
         | Some i \<Rightarrow>
             if i < 1 \<or> i > maxShares then Inl InvalidShareId
             else (case shareComponents of
                     Some (g1, g2) \<Rightarrow>
                       if g2 \<noteq> [] then Inr \<lparr>share_id = i, share_data = g2\<rparr>
                       else Inl InvalidShareData
                   | None \<Rightarrow> Inl InvalidShareData))"

section \<open>Field arithmetic on the tables\<close>

text \<open>
  \<open>calculateFofX\<close> and \<open>lagrange\<close> read the global tables.  The logarithm table is a
  parameter of \<open>calculateFofX_with\<close> and \<open>lagrange_with\<close>, so that the functions can also be
  run on another table; the functions of the source are their instances on
  \<open>calculatedLogarithms\<close>.
\<close>

text \<open>Horner's scheme of lines 193 to 208; the loop runs from the last coefficient down.\<close>

definition calculateFofX_with :: "nat option list \<Rightarrow> nat \<Rightarrow> jsnum list \<Rightarrow> jsnum" where
  "calculateFofX_with logs x coefficients =
     (let logX = js_get logs x
      in fold (\<lambda>c fx.
           if fx \<noteq> Some 0
           then Some (js_xor
                  (js_index calculatedExponents
                     (js_mod (js_add logX (js_index logs fx)) maxShares)) c)
           else c)
         (rev coefficients) (Some 0))"

definition calculateFofX :: "nat \<Rightarrow> jsnum list \<Rightarrow> jsnum" where
  "calculateFofX = calculateFofX_with calculatedLogarithms"

text \<open>
  \<open>(product + log[0 ^ x[j]] - log[x[i] ^ x[j]] + maxShares) % maxShares\<close>.  No table entry
  exceeds 255 (\<open>maxShares\<close>), so the sum is never negative and the subtraction on \<open>nat\<close>
  is the one of the source.
\<close>

fun lagrangeStep :: "jsnum \<Rightarrow> jsnum \<Rightarrow> jsnum \<Rightarrow> jsnum" where
  "lagrangeStep (Some product) (Some a) (Some b) =
     Some ((product + a + maxShares - b) mod maxShares)"
| "lagrangeStep _ _ _ = None"

definition lagrange_with :: "nat option list \<Rightarrow> nat list \<Rightarrow> jsnum list \<Rightarrow> nat" where
  "lagrange_with logs x y =
     fold (\<lambda>i sum.
        case js_get y i of
          None \<Rightarrow> sum
        | Some yi \<Rightarrow>
            if yi = 0 then sum
            else
              let product =
                    fold (\<lambda>j product.
                       if i \<noteq> j
                       then lagrangeStep product
                              (js_get logs (0 XOR x ! j))
                              (js_get logs (x ! i XOR x ! j))
                       else product)
                      [0..<length x] (js_get logs yi)
              in js_xor (Some sum) (js_index calculatedExponents product))
       [0..<length x] 0"

definition lagrange :: "nat list \<Rightarrow> jsnum list \<Rightarrow> nat" where
  "lagrange = lagrange_with calculatedLogarithms"

section \<open>Random coefficients\<close>

text \<open>
  \<open>crypto.randomBytes\<close> is a stream of bytes, read from a position that every call moves
  on: \<open>randomBytes rng pos n\<close> are the next \<open>n\<close> bytes, as the lower-case hexadecimal string
  that \<open>toString('hex')\<close> makes of them.
\<close>

type_synonym rng = "nat \<Rightarrow> 8 word"

definition randomBytesHex :: "rng \<Rightarrow> nat \<Rightarrow> nat \<Rightarrow> string" where
  "randomBytesHex rng pos n =
     concat (map (\<lambda>k. [digitChar (unat (rng k) div 16), digitChar (unat (rng k) mod 16)])
               [pos..<pos + n])"

lemma padLeft_length_ge:
  assumes "padLeft s m = Inr p"
  shows "length s \<le> length p"
proof (cases "m = 0 \<or> m = 1 \<or> s = [] \<or> length s mod m = 0")
  case True
  with assms show ?thesis
    by (auto simp: padLeft_def Let_def split: if_splits)
next
  case False
  then have "length s mod m < m"
    by simp
  with False assms show ?thesis
    by (auto simp: padLeft_def js_slice_last_def Let_def split: if_splits)
qed

lemma padLeft_nonempty:
  "s \<noteq> [] \<Longrightarrow> padLeft s m = Inr p \<Longrightarrow> p \<noteq> []"
  using padLeft_length_ge [of s m p] by auto

lemma numToString_nonempty: "numToString v radix \<noteq> []"
  by (cases v) (auto simp: toStringRadix.simps)

text \<open>The inner loop of lines 263 to 268; \<open>byteString[i]\<close> past the end is \<open>undefined\<close>, which
  \<open>parseInt\<close> reads as \<open>NaN\<close>.\<close>

function getRandomBinaryString_inner ::
  "string \<Rightarrow> nat \<Rightarrow> nat \<Rightarrow> nat \<Rightarrow> string \<Rightarrow> error + string" where
  "getRandomBinaryString_inner byteString bits len i str =
     (if i < len \<or> length str < bits then
        (let parsedInt = (if i < length byteString then parseInt [byteString ! i] 16 else None)
         in case padLeft (numToString parsedInt 2) 4 of
              Inl e \<Rightarrow> Inl e
            | Inr p \<Rightarrow> getRandomBinaryString_inner byteString bits len (i + 1) (str @ p))
      else Inr str)"
  by pat_completeness auto
termination
proof (relation "measure (\<lambda>(byteString, bits, len, i, str). (len - i) + (bits - length str))",
    goal_cases)
  case 1
  show ?case by simp
next
  case (2 byteString bits len i str parsedInt p)
  from 2(3) have "p \<noteq> []"
    using padLeft_nonempty [OF numToString_nonempty] by blast
  then have "length p \<ge> 1" by (cases p) simp_all
  with 2(1) show ?case by (simp del: One_nat_def) linarith
qed

declare getRandomBinaryString_inner.simps [simp del]

text \<open>\<open>string.substr(-bits)\<close>; \<open>substr(-0)\<close> is the whole string.\<close>

definition js_substr_last :: "string \<Rightarrow> nat \<Rightarrow> string" where
  "js_substr_last s bits = (if bits = 0 then s else drop (length s - bits) s)"

text \<open>The outer loop \<open>while (string === '')\<close>: a round reads \<open>ceil(bits / 8)\<close> bytes and starts
  again when the sample is all zeros.  The result is the string and the new position of
  the stream; \<open>None\<close> is a loop that never ends.\<close>

partial_function (option) getRandomBinaryString ::
  "rng \<Rightarrow> nat \<Rightarrow> nat \<Rightarrow> (error + string \<times> nat) option" where
  "getRandomBinaryString rng bits pos =
     (case getRandomBinaryString_inner (randomBytesHex rng pos ((bits + 7) div 8)) bits
             (if randomBytesHex rng pos ((bits + 7) div 8) \<noteq> []
              then length (randomBytesHex rng pos ((bits + 7) div 8)) - 1 else 0) 0 [] of
        Inl e \<Rightarrow> Some (Inl e)
      | Inr str \<Rightarrow>
          if length (filter (\<lambda>c. c = CHR ''0'') (js_substr_last str bits))
               = length (js_substr_last str bits)
          then getRandomBinaryString rng bits (pos + (bits + 7) div 8)
          else Some (Inr (js_substr_last str bits, pos + (bits + 7) div 8)))"

declare getRandomBinaryString.simps [code]

text \<open>The first loop of \<open>calculateRandomizedShares\<close>: \<open>k\<close> more coefficients are drawn.\<close>

fun drawCoefficients ::
  "rng \<Rightarrow> nat \<Rightarrow> nat \<Rightarrow> jsnum list \<Rightarrow> (error + jsnum list \<times> nat) option" where
  "drawCoefficients rng 0 pos coefficients = Some (Inr (coefficients, pos))"
| "drawCoefficients rng (Suc k) pos coefficients =
     (case getRandomBinaryString rng fieldBits pos of
        None \<Rightarrow> None
      | Some (Inl e) \<Rightarrow> Some (Inl e)
      | Some (Inr (str, pos')) \<Rightarrow>
          drawCoefficients rng k pos' (coefficients @ [parseInt str 2]))"

text \<open>The shares are the pairs \<open>(x, y)\<close> for \<open>x\<close> from 1 to \<open>totalShares\<close>.\<close>

definition calculateRandomizedShares ::
  "rng \<Rightarrow> nat \<Rightarrow> jsnum \<Rightarrow> nat \<Rightarrow> nat \<Rightarrow> (error + (nat \<times> jsnum) list \<times> nat) option" where
  "calculateRandomizedShares rng pos secret totalShares requiredShares =
     (case drawCoefficients rng (requiredShares - 1) pos [secret] of
        None \<Rightarrow> None
      | Some (Inl e) \<Rightarrow> Some (Inl e)
      | Some (Inr (coefficients, pos')) \<Rightarrow>
          Some (Inr (map (\<lambda>i. (i, calculateFofX i coefficients)) [1..<totalShares + 1], pos')))"

section \<open>generateShares\<close>

text \<open>
  The arguments of \<open>generateShares\<close> are arbitrary JavaScript values.  \<open>JInt\<close> is a number
  that is an integer, \<open>JFraction\<close> a finite number that is not, \<open>JObject\<close> any object, array
  or function.
\<close>

datatype jsval =
    JUndefined
  | JNull
  | JBool bool
  | JInt int
  | JFraction
  | JNaN
  | JInfinity
  | JString string
  | JObject

fun truthy :: "jsval \<Rightarrow> bool" where
  "truthy JUndefined = False"
| "truthy JNull = False"
| "truthy (JBool b) = b"
| "truthy (JInt n) = (n \<noteq> 0)"
| "truthy JFraction = True"
| "truthy JNaN = False"
| "truthy JInfinity = True"
| "truthy (JString s) = (s \<noteq> [])"
| "truthy JObject = True"

text \<open>\<open>typeof v === 'number' && v % 1 === 0\<close>, and the value of such a \<open>v\<close>.\<close>

fun isInteger :: "jsval \<Rightarrow> bool" where
  "isInteger (JInt n) = True"
| "isInteger _ = False"

fun intOf :: "jsval \<Rightarrow> int" where
  "intOf (JInt n) = n"
| "intOf _ = 0"

fun isString :: "jsval \<Rightarrow> bool" where
  "isString (JString s) = True"
| "isString _ = False"

fun stringOf :: "jsval \<Rightarrow> string" where
  "stringOf (JString s) = s"
| "stringOf _ = []"

text \<open>A loop that stops at the first exception.\<close>

fun foldE :: "('a \<Rightarrow> 's \<Rightarrow> error + 's) \<Rightarrow> 'a list \<Rightarrow> 's \<Rightarrow> error + 's" where
  "foldE f [] s = Inr s"
| "foldE f (a # as) s = (case f a s of Inl e \<Rightarrow> Inl e | Inr s' \<Rightarrow> foldE f as s')"

text \<open>\<open>a || b\<close> on strings: the empty string and \<open>undefined\<close> give \<open>b\<close>.\<close>

fun orElse :: "string option \<Rightarrow> string \<Rightarrow> string" where
  "orElse None b = b"
| "orElse (Some a) b = (if a \<noteq> [] then a else b)"

text \<open>The body of the loop over \<open>j\<close> of lines 346 to 349, on the arrays \<open>(x, y)\<close>.\<close>

definition mergeSubShare ::
  "(nat \<times> jsnum) list \<Rightarrow> nat \<Rightarrow> string option list \<times> string option list
     \<Rightarrow> error + string option list \<times> string option list" where
  "mergeSubShare subShares j xy =
     (case xy of (x, y) \<Rightarrow>
        if j < length subShares then
          (case padLeft (numToString (snd (subShares ! j)) 2) fieldBits of
             Inl e \<Rightarrow> Inl e
           | Inr p \<Rightarrow>
               Inr (js_set x j
                      (Some (orElse (js_get x j) (numToString (Some (fst (subShares ! j))) 16))),
                    js_set y j (Some (p @ orElse (js_get y j) []))))
        else Inl TypeError)"

text \<open>The loop over the chunks of the secret, lines 344 to 350.\<close>

fun generateShares_loop ::
  "rng \<Rightarrow> jsnum list \<Rightarrow> nat \<Rightarrow> nat \<Rightarrow> string option list \<times> string option list \<Rightarrow> nat
     \<Rightarrow> (error + string option list \<times> string option list) option" where
  "generateShares_loop rng [] totalShares requiredShares xy pos = Some (Inr xy)"
| "generateShares_loop rng (c # cs) totalShares requiredShares xy pos =
     (case calculateRandomizedShares rng pos c totalShares requiredShares of
        None \<Rightarrow> None
      | Some (Inl e) \<Rightarrow> Some (Inl e)
      | Some (Inr (subShares, pos')) \<Rightarrow>
          (case foldE (mergeSubShare subShares) [0..<totalShares] xy of
             Inl e \<Rightarrow> Some (Inl e)
           | Inr xy' \<Rightarrow> generateShares_loop rng cs totalShares requiredShares xy' pos'))"

text \<open>The body of the last loop, lines 353 to 367: the share string of \<open>x[i]\<close> and \<open>y[i]\<close>.\<close>

definition emitShare :: "string option \<Rightarrow> string option \<Rightarrow> error + string" where
  "emitShare xi yi =
     (case (case xi of None \<Rightarrow> None | Some shareId \<Rightarrow> parseInt shareId 16) of
        None \<Rightarrow> Inl ShareIdOutOfRange
      | Some integerShareId \<Rightarrow>
          if integerShareId < 1 \<or> integerShareId > maxShares then Inl ShareIdOutOfRange
          else
            (case xi of
               None \<Rightarrow> Inl TypeError
             | Some shareId \<Rightarrow>
                 (case padLeft shareId 2 of
                    Inl e \<Rightarrow> Inl e
                  | Inr sid \<Rightarrow>
                      (case yi of
                         None \<Rightarrow> Inl TypeError
                       | Some bits \<Rightarrow>
                           (case binaryToHexadecimal bits of
                              Inl e \<Rightarrow> Inl e
                            | Inr h \<Rightarrow> Inr (sid @ h))))))"

definition emitShares :: "nat \<Rightarrow> string option list \<times> string option list \<Rightarrow> error + string list" where
  "emitShares totalShares xy =
     foldE (\<lambda>i out. case emitShare (js_get (fst xy) i) (js_get (snd xy) i) of
                        Inl e \<Rightarrow> Inl e
                      | Inr s \<Rightarrow> Inr (out @ [s]))
       [0..<totalShares] []"

text \<open>
  \<open>generateShares(secret, totalShares, requiredShares, padLength)\<close>, reading the random
  stream from position 0.  \<open>None\<close> is a call that never returns, \<open>Some (Inl e)\<close> one that
  throws.  \<open>TotalSharesTooLarge\<close> and \<open>RequiredSharesTooLarge\<close> are the two errors whose
  message ends with the number of bits to use.
\<close>

definition generateShares ::
  "rng \<Rightarrow> jsval \<Rightarrow> jsval \<Rightarrow> jsval \<Rightarrow> jsval \<Rightarrow> (error + string list) option" where
  "generateShares rng secret totalShares requiredShares padLength0 =
     (let padLength = (if truthy padLength0 then padLength0 else JInt 128) in
      if \<not> isString secret then Some (Inl SecretNotString)
      else if \<not> isInteger totalShares \<or> intOf totalShares < 2 then Some (Inl TotalSharesInvalid)
      else if intOf totalShares > int maxShares
        then Some (Inl (TotalSharesTooLarge (intOf totalShares)))
      else if \<not> isInteger requiredShares \<or> intOf requiredShares < 2
        then Some (Inl RequiredSharesInvalid)
      else if intOf requiredShares > int maxShares
        then Some (Inl (RequiredSharesTooLarge (intOf requiredShares)))
      else if intOf requiredShares > intOf totalShares then Some (Inl RequiredAboveTotal)
      else if \<not> isInteger padLength \<or> intOf padLength < 0 \<or> intOf padLength > 1024
        then Some (Inl PadLengthInvalid)
      else
        (case hexadecimalToBinary (stringOf secret) of
           Inl e \<Rightarrow> Some (Inl e)
         | Inr bits \<Rightarrow>
             (case splitNumStringToIntArray (CHR ''1'' # bits) (Some (nat (intOf padLength))) of
                Inl e \<Rightarrow> Some (Inl e)
              | Inr chunks \<Rightarrow>
                  (case generateShares_loop rng chunks (nat (intOf totalShares))
                          (nat (intOf requiredShares))
                          (replicate (nat (intOf totalShares)) None,
                           replicate (nat (intOf totalShares)) None) 0 of
                     None \<Rightarrow> None
                   | Some (Inl e) \<Rightarrow> Some (Inl e)
                   | Some (Inr xy) \<Rightarrow> Some (emitShares (nat (intOf totalShares)) xy)))))"

section \<open>deriveSecret\<close>

text \<open>\<open>y[j] || []\<close> and \<open>y[j] = column\<close>; \<open>j\<close> counts up from 0, so it never skips an index
  of \<open>y\<close>.\<close>

definition columnOf :: "jsnum list list \<Rightarrow> nat \<Rightarrow> jsnum list" where
  "columnOf y j = (if j < length y then y ! j else [])"

definition setColumn :: "jsnum list list \<Rightarrow> nat \<Rightarrow> jsnum list \<Rightarrow> jsnum list list" where
  "setColumn y j c = (if j < length y then y[j := c] else y @ [c])"

text \<open>The body of the loop over the shares, lines 383 to 413.\<close>

definition deriveSecret_step ::
  "string \<Rightarrow> nat list \<times> jsnum list list \<Rightarrow> error + nat list \<times> jsnum list list" where
  "deriveSecret_step s xy =
     (case xy of (x, y) \<Rightarrow>
        (case extractShareComponents s of
           Inl e \<Rightarrow> Inl e
         | Inr sh \<Rightarrow>
             if share_id sh \<notin> set x then
               (case hexadecimalToBinary (share_data sh) of
                  Inl e \<Rightarrow> Inl e
                | Inr bits \<Rightarrow>
                    (case splitNumStringToIntArray bits None of
                       Inl e \<Rightarrow> Inl e
                     | Inr splitShare \<Rightarrow>
                         Inr (x @ [share_id sh],
                              fold (\<lambda>j y. setColumn y j
                                      (js_set (columnOf y j) (length (x @ [share_id sh]) - 1)
                                         (splitShare ! j)))
                                [0..<length splitShare] y)))
             else Inr (x, y)))"

text \<open>\<open>result.slice(result.indexOf('1') + 1)\<close>; without a \<open>1\<close> the index is \<open>-1\<close> and the
  slice is the whole string.\<close>

definition sliceAfterMarker :: "string \<Rightarrow> string" where
  "sliceAfterMarker result =
     (if CHR ''1'' \<in> set result
      then drop (length (takeWhile (\<lambda>c. c \<noteq> CHR ''1'') result) + 1) result
      else result)"

definition deriveSecret :: "string list \<Rightarrow> error + string" where
  "deriveSecret shares =
     (case foldE deriveSecret_step shares ([], []) of
        Inl e \<Rightarrow> Inl e
      | Inr (x, y) \<Rightarrow>
          (case foldE (\<lambda>i result.
                   case padLeft (numToString (Some (lagrange x (y ! i))) 2) fieldBits of
                     Inl e \<Rightarrow> Inl e
                   | Inr p \<Rightarrow> Inr (p @ result))
                 [0..<length y] [] of
             Inl e \<Rightarrow> Inl e
           | Inr result \<Rightarrow> binaryToHexadecimal (sliceAfterMarker result)))"

section \<open>The generator and its powers\<close>

text \<open>
  \<open>xtime\<close> is the update of \<open>x\<close> in one round of the table loop (multiplication by the
  generator 2), \<open>gexp k\<close> the value of \<open>x\<close> after \<open>k\<close> rounds.  \<open>expCycle\<close> lists the 255
  values of one period; the list is checked against \<open>xtime\<close> link by link.
\<close>

definition xtime :: "nat \<Rightarrow> nat" where
  "xtime x = (if push_bit 1 x AND 256 \<noteq> 0 then push_bit 1 x XOR 0x11d else push_bit 1 x)"

fun gexp :: "nat \<Rightarrow> nat" where
  "gexp 0 = 1"
| "gexp (Suc k) = xtime (gexp k)"

lemma xtime_bytes:
  "\<forall>x\<in>{0..<256}. xtime x < 256 \<and> (x \<noteq> 0 \<longrightarrow> xtime x \<noteq> 0)"
  unfolding xtime_def
  by (simp add: atLeastLessThan_nat_numeral)

lemma xtime_less: "x < 256 \<Longrightarrow> xtime x < 256"
  using xtime_bytes by auto

lemma xtime_pos: "0 < x \<Longrightarrow> x < 256 \<Longrightarrow> 0 < xtime x"
  using xtime_bytes by auto

lemma xtime_alt: "xtime x = push_bit 1 x XOR (if bit x 7 then 0x11d else 0)"
proof -
  have "bit (push_bit 1 x) 8 = bit x 7"
    using bit_double_iff [of x 8] by (simp add: mult.commute)
  then have "push_bit 1 x AND 256 \<noteq> 0 \<longleftrightarrow> bit x 7"
    using and_exp_eq_0_iff_not_bit [of "push_bit 1 x" 8] by simp
  then show ?thesis by (simp add: xtime_def)
qed

lemma xtime_xor: "xtime (a XOR b) = xtime a XOR xtime b"
  by (simp add: xtime_alt bit_xor_iff xor.assoc xor.left_commute)

lemma xtime_inj: "xtime x = xtime y \<Longrightarrow> x = y"
proof -
  assume a: "xtime x = xtime y"
  have odd_x: "odd (xtime z) \<longleftrightarrow> bit z 7" for z
    by (simp add: xtime_alt even_xor_iff)
  from a have b: "bit x 7 = bit y 7" using odd_x by metis
  with a have "push_bit 1 x XOR c = push_bit 1 y XOR c" if "c = (if bit x 7 then 0x11d else 0)" for c
    using that by (simp add: xtime_alt)
  then have "(push_bit 1 x XOR c) XOR c = (push_bit 1 y XOR c) XOR c"
    if "c = (if bit x 7 then 0x11d else 0)" for c
    using that by presburger
  then have "push_bit 1 x = push_bit 1 y"
    by (simp add: xor.assoc)
  then show ?thesis by simp
qed

lemma gexp_range: "0 < gexp k \<and> gexp k < 256"
  by (induction k) (auto simp: xtime_less xtime_pos)

lemma gexp_Suc_inj: "gexp (Suc i) = gexp (Suc j) \<Longrightarrow> gexp i = gexp j"
  using xtime_inj by simp

lemma gexp_shift: "gexp (i + d) = gexp i \<Longrightarrow> gexp d = 1"
  by (induction i) (auto dest: xtime_inj)



definition expCycle :: "nat list" where
  "expCycle =
    [1, 2, 4, 8, 16, 32, 64, 128, 29, 58, 116, 232, 205, 135, 19, 38, 76, 152, 45, 90, 180,
     117, 234, 201, 143, 3, 6, 12, 24, 48, 96, 192, 157, 39, 78, 156, 37, 74, 148, 53, 106,
     212, 181, 119, 238, 193, 159, 35, 70, 140, 5, 10, 20, 40, 80, 160, 93, 186, 105, 210, 185,
     111, 222, 161, 95, 190, 97, 194, 153, 47, 94, 188, 101, 202, 137, 15, 30, 60, 120, 240,
     253, 231, 211, 187, 107, 214, 177, 127, 254, 225, 223, 163, 91, 182, 113, 226, 217, 175,
     67, 134, 17, 34, 68, 136, 13, 26, 52, 104, 208, 189, 103, 206, 129, 31, 62, 124, 248, 237,
     199, 147, 59, 118, 236, 197, 151, 51, 102, 204, 133, 23, 46, 92, 184, 109, 218, 169, 79,
     158, 33, 66, 132, 21, 42, 84, 168, 77, 154, 41, 82, 164, 85, 170, 73, 146, 57, 114, 228,
     213, 183, 115, 230, 209, 191, 99, 198, 145, 63, 126, 252, 229, 215, 179, 123, 246, 241,
     255, 227, 219, 171, 75, 150, 49, 98, 196, 149, 55, 110, 220, 165, 87, 174, 65, 130, 25,
     50, 100, 200, 141, 7, 14, 28, 56, 112, 224, 221, 167, 83, 166, 81, 162, 89, 178, 121, 242,
     249, 239, 195, 155, 43, 86, 172, 69, 138, 9, 18, 36, 72, 144, 61, 122, 244, 245, 247, 243,
     251, 235, 203, 139, 11, 22, 44, 88, 176, 125, 250, 233, 207, 131, 27, 54, 108, 216, 173,
     71, 142]"

fun chain_ok :: "nat list \<Rightarrow> bool" where
  "chain_ok (x # y # r) = (xtime x = y \<and> chain_ok (y # r))"
| "chain_ok _ = True"

lemma chain_ok_expCycle: "chain_ok (expCycle @ [1])"
  unfolding expCycle_def by (simp add: xtime_def)

lemma length_expCycle: "length expCycle = 255"
  unfolding expCycle_def by simp

lemma one_notin_tl_expCycle: "1 \<notin> set (tl expCycle)"
  unfolding expCycle_def by simp


lemma gexp_funpow: "gexp (m + k) = (xtime ^^ k) (gexp m)"
  by (induction k) simp_all

lemma chain_ok_funpow: "chain_ok xs \<Longrightarrow> k < length xs \<Longrightarrow> xs ! k = (xtime ^^ k) (hd xs)"
proof (induction xs arbitrary: k rule: chain_ok.induct)
  case (1 x y r)
  show ?case
  proof (cases k)
    case 0
    then show ?thesis by simp
  next
    case (Suc j)
    with 1 have "(y # r) ! j = (xtime ^^ j) (hd (y # r))"
      by simp
    with 1(2) Suc show ?thesis
      by (simp add: funpow_swap1)
  qed
qed simp_all

lemma chain_ok_nth:
  assumes "chain_ok xs" "hd xs = gexp m" "k < length xs"
  shows "xs ! k = gexp (m + k)"
  using chain_ok_funpow [OF assms(1,3)] assms(2) by (simp add: gexp_funpow)

lemma expCycle_nth: "k < 255 \<Longrightarrow> expCycle ! k = gexp k"
proof -
  assume k: "k < 255"
  have hd: "hd (expCycle @ [1]) = gexp 0"
    by (simp add: expCycle_def)
  have "(expCycle @ [1]) ! k = gexp (0 + k)"
    using k by (intro chain_ok_nth [OF chain_ok_expCycle hd]) (simp add: length_expCycle)
  then show ?thesis
    using k by (simp add: nth_append length_expCycle del: gexp.simps)
qed


lemma gexp_255: "gexp 255 = 1"
proof -
  have hd: "hd (expCycle @ [1]) = gexp 0"
    by (simp add: expCycle_def)
  have "(expCycle @ [1]) ! 255 = gexp (0 + 255)"
    by (intro chain_ok_nth [OF chain_ok_expCycle hd]) (simp add: length_expCycle)
  moreover have "(expCycle @ [1]) ! 255 = 1"
    using nth_append_length [of expCycle 1] by (simp only: length_expCycle)
  ultimately show ?thesis
    by (simp del: gexp.simps)
qed

lemma gexp_ne_1: "0 < d \<Longrightarrow> d < 255 \<Longrightarrow> gexp d \<noteq> 1"
proof
  assume d: "0 < d" "d < 255" and g: "gexp d = 1"
  have "gexp d = expCycle ! d"
    using d by (simp only: expCycle_nth)
  also have "\<dots> = tl expCycle ! (d - 1)"
    using d by (simp add: nth_tl length_expCycle)
  also have "\<dots> \<in> set (tl expCycle)"
    using d by (intro nth_mem) (simp add: length_expCycle)
  finally show False
    using g one_notin_tl_expCycle by simp
qed



lemma gexp_period: "gexp (k + 255) = gexp k"
proof (induction k)
  case 0
  show ?case by (simp add: gexp_255 del: gexp.simps, simp)
next
  case (Suc k)
  have "Suc k + 255 = Suc (k + 255)" by simp
  then show ?case by (simp only: gexp.simps Suc)
qed

lemma gexp_mod: "gexp (k mod 255) = gexp k"
proof (induction k rule: less_induct)
  case (less k)
  show ?case
  proof (cases "k < 255")
    case True
    then show ?thesis by simp
  next
    case False
    then have k: "k = (k - 255) + 255"
      by simp
    have "gexp (k mod 255) = gexp ((k - 255) mod 255)"
      using le_mod_geq [of 255 k] False by simp
    also have "\<dots> = gexp (k - 255)"
      using False by (intro less) simp
    also have "\<dots> = gexp ((k - 255) + 255)"
      by (rule gexp_period [symmetric])
    also have "\<dots> = gexp k"
      using k by presburger
    finally show ?thesis .
  qed
qed

lemma gexp_inj_lt: "i < 255 \<Longrightarrow> j < 255 \<Longrightarrow> gexp i = gexp j \<Longrightarrow> i = j"
proof -
  have aux: "a \<le> b \<Longrightarrow> b < 255 \<Longrightarrow> gexp a = gexp b \<Longrightarrow> a = b" for a b
  proof (rule ccontr)
    assume h: "a \<le> b" "b < 255" "gexp a = gexp b" "a \<noteq> b"
    then have "gexp (a + (b - a)) = gexp a" by simp
    then have "gexp (b - a) = 1" by (rule gexp_shift)
    moreover from h have "0 < b - a" "b - a < 255" by simp_all
    ultimately show False using gexp_ne_1 by blast
  qed
  assume "i < 255" "j < 255" "gexp i = gexp j"
  then show ?thesis
    using aux [of i j] aux [of j i] by (cases "i \<le> j") auto
qed

lemma gexp_eq_iff: "gexp i = gexp j \<longleftrightarrow> i mod 255 = j mod 255"
proof
  assume "gexp i = gexp j"
  then have "gexp (i mod 255) = gexp (j mod 255)" by (simp only: gexp_mod)
  then show "i mod 255 = j mod 255" by (rule gexp_inj_lt [rotated 2]) simp_all
next
  assume "i mod 255 = j mod 255"
  then have "gexp (i mod 255) = gexp (j mod 255)" by (rule arg_cong)
  then show "gexp i = gexp j" by (simp only: gexp_mod)
qed


lemma gexp_surj:
  assumes "0 < a" "a < 256"
  shows "\<exists>k<255. gexp k = a"
proof -
  define A :: "nat set" where "A = {0..<255}"
  define B :: "nat set" where "B = {1..<256}"
  have fin: "finite B" and cardA: "card A = 255" and cardB: "card B = 255"
    by (simp_all add: A_def B_def)
  have inj: "inj_on gexp A"
  proof (rule inj_onI)
    fix x y
    assume "x \<in> A" "y \<in> A" and g: "gexp x = gexp y"
    then have "x < 255" "y < 255"
      by (simp_all add: A_def)
    then show "x = y"
      using g by (rule gexp_inj_lt)
  qed
  have sub: "gexp ` A \<subseteq> B"
  proof
    fix b
    assume "b \<in> gexp ` A"
    then obtain k where "b = gexp k"
      by (rule imageE)
    with gexp_range [of k] show "b \<in> B"
      by (simp add: B_def Suc_le_eq)
  qed
  have "card (gexp ` A) = card B"
    using card_image [OF inj] cardA cardB by simp
  then have "gexp ` A = B"
    by (rule card_subset_eq [OF fin sub])
  moreover from assms have "a \<in> B"
    by (simp add: B_def)
  ultimately have "a \<in> gexp ` A"
    by simp
  then obtain k where "k \<in> A" "a = gexp k"
    by (rule imageE)
  then show ?thesis
    by (auto simp: A_def)
qed


section \<open>What the loop stores in the tables\<close>

lemma js_get_js_set: "js_get (js_set xs i v) k = (if k = i then v else js_get xs k)"
  by (auto simp: js_get_def js_set_def nth_append)

lemma length_js_set: "length (js_set xs i v) = max (length xs) (Suc i)"
  by (auto simp: js_set_def)

lemma buildTables_Suc: "buildTables (Suc n) = tableStep n (buildTables n)"
  by (simp add: buildTables_def)

definition tabInv :: "nat \<Rightarrow> nat option list \<times> nat option list \<times> nat \<Rightarrow> bool" where
  "tabInv n s = (case s of (logs, exps, x) \<Rightarrow>
     x = gexp n \<and> exps = map (\<lambda>k. Some (gexp k)) [0..<n] \<and>
     (\<forall>a l. js_get logs a = Some l \<longrightarrow> l < n \<and> gexp l = a \<and> (\<forall>k. l < k \<and> k < n \<longrightarrow> gexp k \<noteq> a)) \<and>
     (\<forall>k<n. js_get logs (gexp k) \<noteq> None))"

lemma tabInv_buildTables: "tabInv n (buildTables n)"
proof (induction n)
  case 0
  show ?case by (simp add: tabInv_def buildTables_def js_get_def)
next
  case (Suc n)
  obtain logs exps x where s: "buildTables n = (logs, exps, x)"
    by (cases "buildTables n") auto
  from Suc s have x: "x = gexp n" and e: "exps = map (\<lambda>k. Some (gexp k)) [0..<n]"
    and l1: "\<And>a l. js_get logs a = Some l \<Longrightarrow> l < n \<and> gexp l = a \<and> (\<forall>k. l < k \<and> k < n \<longrightarrow> gexp k \<noteq> a)"
    and l2: "\<And>k. k < n \<Longrightarrow> js_get logs (gexp k) \<noteq> None"
    by (auto simp: tabInv_def)
  have len: "length exps = n" using e by simp
  have step: "tableStep n (logs, exps, x) = (js_set logs x (Some n), exps @ [Some x], xtime x)"
    by (simp add: tableStep_def Let_def xtime_def js_set_def len)
  show ?case
    unfolding buildTables_Suc s step tabInv_def
    using l1 l2 by (auto simp: x e js_get_js_set less_Suc_eq)
qed



text \<open>\<open>glog a\<close> is the entry of the finished logarithm table at \<open>a\<close>.\<close>

definition glog :: "nat \<Rightarrow> nat" where
  "glog a = (case js_get calculatedLogarithms a of Some l \<Rightarrow> l | None \<Rightarrow> 0)"

lemma exps_buildTables: "fst (snd (buildTables n)) = map (\<lambda>k. Some (gexp k)) [0..<n]"
  using tabInv_buildTables [of n] by (auto simp: tabInv_def split: prod.splits)

lemma x_buildTables: "snd (snd (buildTables n)) = gexp n"
  using tabInv_buildTables [of n] by (auto simp: tabInv_def split: prod.splits)

lemma logs_buildTables_Some:
  "js_get (fst (buildTables n)) a = Some l \<Longrightarrow>
     l < n \<and> gexp l = a \<and> (\<forall>k. l < k \<and> k < n \<longrightarrow> gexp k \<noteq> a)"
  using tabInv_buildTables [of n] by (auto simp: tabInv_def split: prod.splits)

lemma logs_buildTables_defined:
  "k < n \<Longrightarrow> js_get (fst (buildTables n)) (gexp k) \<noteq> None"
  using tabInv_buildTables [of n] by (auto simp: tabInv_def split: prod.splits)

lemma js_get_exps_gen:
  "js_get (fst (snd (buildTables n))) k = (if k < n then Some (gexp k) else None)"
  by (simp add: exps_buildTables js_get_def del: gexp.simps)

lemma js_get_exps: "js_get calculatedExponents k = (if k < 256 then Some (gexp k) else None)"
  unfolding calculatedExponents_def by (rule js_get_exps_gen)

lemma logs_gen:
  assumes "255 \<le> n" "0 < a" "a < 256"
  shows "\<exists>l. js_get (fst (buildTables n)) a = Some l \<and> l < n \<and> gexp l = a
           \<and> (\<forall>k. l < k \<and> k < n \<longrightarrow> gexp k \<noteq> a)"
proof -
  obtain k where k: "k < 255" "gexp k = a"
    using gexp_surj [OF assms(2,3)] by blast
  with assms(1) have "js_get (fst (buildTables n)) (gexp k) \<noteq> None"
    using logs_buildTables_defined [of k n] by simp
  then obtain l where "js_get (fst (buildTables n)) a = Some l"
    using k by auto
  then show ?thesis
    using logs_buildTables_Some by blast
qed

lemma logs_None: "a = 0 \<or> 256 \<le> a \<Longrightarrow> js_get (fst (buildTables n)) a = None"
proof (rule ccontr)
  assume a: "a = 0 \<or> 256 \<le> a" and "js_get (fst (buildTables n)) a \<noteq> None"
  then obtain l where "js_get (fst (buildTables n)) a = Some l" by auto
  then have "gexp l = a" using logs_buildTables_Some by blast
  with gexp_range [of l] a show False by auto
qed

lemma js_get_logs:
  assumes "0 < a" "a < 256"
  shows "js_get calculatedLogarithms a = Some (glog a)"
    and "1 \<le> glog a" and "glog a \<le> 255" and "gexp (glog a) = a"
proof -
  obtain l where l: "js_get (fst (buildTables 256)) a = Some l" "l < 256" "gexp l = a"
      "\<forall>k. l < k \<and> k < 256 \<longrightarrow> gexp k \<noteq> a"
    using logs_gen [of 256 a] assms by auto
  then have g: "glog a = l"
    by (simp add: glog_def calculatedLogarithms_def)
  show "js_get calculatedLogarithms a = Some (glog a)"
    using l g by (simp add: calculatedLogarithms_def)
  show "gexp (glog a) = a" using l g by simp
  show "glog a \<le> 255" using l g by simp
  show "1 \<le> glog a"
  proof (rule ccontr)
    assume "\<not> 1 \<le> glog a"
    then have "l = 0" using g by simp
    with l have "a = 1" by simp
    moreover have "gexp 255 \<noteq> a" using l \<open>l = 0\<close> by simp
    ultimately show False using gexp_255 by simp
  qed
qed

lemma js_get_logs_None: "a = 0 \<or> 256 \<le> a \<Longrightarrow> js_get calculatedLogarithms a = None"
  unfolding calculatedLogarithms_def by (rule logs_None)

lemma glog_gexp: "glog (gexp k) mod 255 = k mod 255"
proof -
  have "gexp (glog (gexp k)) = gexp k"
    using gexp_range [of k] js_get_logs(4) [of "gexp k"] by simp
  then show ?thesis by (simp only: gexp_eq_iff)
qed

lemma glog_1: "glog 1 = 255"
proof -
  have "glog 1 mod 255 = 0"
    using glog_gexp [of 0] by simp
  moreover have "1 \<le> glog 1" "glog 1 \<le> 255"
    using js_get_logs(2,3) [of 1] by simp_all
  ultimately show ?thesis by presburger
qed

lemma logs_before_last_round: "js_get (fst (buildTables 255)) 1 = Some 0"
proof -
  obtain l where l: "js_get (fst (buildTables 255)) 1 = Some l" "l < 255" "gexp l = 1"
    using logs_gen [of 255 1] by auto
  then have "gexp l = gexp 0" by simp
  with l(2) have "l = 0" using gexp_inj_lt [of l 0] by simp
  with l show ?thesis by simp
qed


section \<open>The logarithm table before and after the last round\<close>

text \<open>
  Two entries of a logarithm table agree when both are missing or both are at most 255 and
  congruent modulo 255; \<open>logsAgree T\<close> says so of every entry of \<open>T\<close> and of the finished
  table.
\<close>

lemma logs_last_round:
  "js_get calculatedLogarithms a = (if a = 1 then Some 255 else js_get (fst (buildTables 255)) a)"
proof -
  obtain logs exps x where s: "buildTables 255 = (logs, exps, x)"
    by (cases "buildTables 255") auto
  have x: "x = 1"
    using x_buildTables [of 255] s gexp_255 by simp
  have "buildTables 256 = tableStep 255 (buildTables 255)"
    using buildTables_Suc [of 255] by simp
  then have "fst (buildTables 256) = js_set logs 1 (Some 255)"
    by (simp add: s x tableStep_def Let_def)
  then show ?thesis
    by (simp add: calculatedLogarithms_def js_get_js_set s)
qed

fun cong255 :: "jsnum \<Rightarrow> jsnum \<Rightarrow> bool" where
  "cong255 None None = True"
| "cong255 (Some a) (Some b) = (a \<le> 255 \<and> b \<le> 255 \<and> a mod 255 = b mod 255)"
| "cong255 _ _ = False"

definition logsAgree :: "nat option list \<Rightarrow> bool" where
  "logsAgree T = (\<forall>a. cong255 (js_get T a) (js_get calculatedLogarithms a))"

lemma logs_le_255: "js_get calculatedLogarithms a = Some l \<Longrightarrow> l \<le> 255"
  unfolding calculatedLogarithms_def using logs_buildTables_Some [of 256 a l] by simp

lemma cong255_refl_logs: "cong255 (js_get calculatedLogarithms a) (js_get calculatedLogarithms a)"
  by (cases "js_get calculatedLogarithms a") (auto dest: logs_le_255)

lemma logsAgree_final: "logsAgree calculatedLogarithms"
  by (simp add: logsAgree_def cong255_refl_logs)

lemma logsAgree_before: "logsAgree (fst (buildTables 255))"
  unfolding logsAgree_def
proof
  fix a
  show "cong255 (js_get (fst (buildTables 255)) a) (js_get calculatedLogarithms a)"
  proof (cases "a = 1")
    case True
    then show ?thesis
      using logs_before_last_round by (simp add: logs_last_round)
  next
    case False
    then have "js_get (fst (buildTables 255)) a = js_get calculatedLogarithms a"
      by (simp add: logs_last_round)
    then show ?thesis
      by (simp add: cong255_refl_logs)
  qed
qed

lemma cong255_add_mod:
  "cong255 p p' \<Longrightarrow> cong255 q q' \<Longrightarrow> js_mod (js_add p q) 255 = js_mod (js_add p' q') 255"
  by (cases p; cases p'; cases q; cases q') (auto intro: mod_add_cong)

lemma cong255_js_index:
  "logsAgree T \<Longrightarrow> cong255 (js_index T fx) (js_index calculatedLogarithms fx)"
  by (cases fx) (simp_all add: logsAgree_def)

lemma calculateFofX_with_agree:
  assumes "logsAgree T"
  shows "calculateFofX_with T x cs = calculateFofX x cs"
proof -
  have 1: "cong255 (js_get T x) (js_get calculatedLogarithms x)"
    using assms by (simp add: logsAgree_def)
  have eq: "js_mod (js_add (js_get T x) (js_index T fx)) maxShares
      = js_mod (js_add (js_get calculatedLogarithms x) (js_index calculatedLogarithms fx)) maxShares"
    for fx
    unfolding maxShares_def by (rule cong255_add_mod [OF 1 cong255_js_index [OF assms]])
  show ?thesis
    unfolding calculateFofX_def calculateFofX_with_def Let_def eq ..
qed

lemma cong255_None: "cong255 p q \<Longrightarrow> (p = None) = (q = None)"
  by (cases p; cases q) simp_all

lemma lagrangeStep_None: "p = None \<or> a = None \<or> b = None \<Longrightarrow> lagrangeStep p a b = None"
  by (cases p; cases a; cases b) simp_all

lemma mod255_step:
  fixes x y z x' y' z' :: nat
  assumes "x mod 255 = x' mod 255" "y mod 255 = y' mod 255" "z mod 255 = z' mod 255"
    "z \<le> 255" "z' \<le> 255"
  shows "(x + y + 255 - z) mod 255 = (x' + y' + 255 - z') mod 255"
proof -
  have 1: "x + y + 255 - z = (x + y) + (255 - z)" "x' + y' + 255 - z' = (x' + y') + (255 - z')"
    using assms(4,5) by simp_all
  have 2: "(x + y) mod 255 = (x' + y') mod 255"
    using assms(1,2) by (rule mod_add_cong)
  have "z < 255 \<or> z = 255" "z' < 255 \<or> z' = 255"
    using assms(4,5) by auto
  then have "z = z' \<or> (z = 0 \<and> z' = 255) \<or> (z = 255 \<and> z' = 0)"
    using assms(3) by auto
  then have 3: "(255 - z) mod 255 = (255 - z') mod 255"
    by auto
  show ?thesis
    unfolding 1 using 2 3 by (rule mod_add_cong)
qed

lemma cong255_lagrangeStep:
  assumes "cong255 p p'" "cong255 a a'" "cong255 b b'"
  shows "lagrangeStep p a b = lagrangeStep p' a' b'"
proof (cases "p = None \<or> a = None \<or> b = None")
  case True
  then have "p' = None \<or> a' = None \<or> b' = None"
    using assms cong255_None by blast
  with True show ?thesis
    by (simp only: lagrangeStep_None)
next
  case False
  then obtain x y z where pab: "p = Some x" "a = Some y" "b = Some z"
    by auto
  with assms obtain x' y' z' where pab': "p' = Some x'" "a' = Some y'" "b' = Some z'"
    by (cases p'; cases a'; cases b') simp_all
  have "(x + y + 255 - z) mod 255 = (x' + y' + 255 - z') mod 255"
    using assms unfolding pab pab' by (intro mod255_step) simp_all
  then show ?thesis
    by (simp add: pab pab' maxShares_def)
qed

lemma lagrangeStep_le: "lagrangeStep p a b = Some v \<Longrightarrow> v < 255"
  by (cases p; cases a; cases b) (simp_all add: maxShares_def)

lemma lagrange_product_agree:
  assumes "logsAgree T" "cong255 p p'"
  shows "cong255
     (fold (\<lambda>j product. if i \<noteq> j
         then lagrangeStep product (js_get T (0 XOR x ! j)) (js_get T (x ! i XOR x ! j))
         else product) js p)
     (fold (\<lambda>j product. if i \<noteq> j
         then lagrangeStep product (js_get calculatedLogarithms (0 XOR x ! j))
                (js_get calculatedLogarithms (x ! i XOR x ! j))
         else product) js p')"
  using assms(2)
proof (induction js arbitrary: p p')
  case Nil
  then show ?case by simp
next
  case (Cons j js)
  show ?case
  proof (cases "i = j")
    case True
    then show ?thesis using Cons by simp
  next
    case False
    let ?q = "lagrangeStep p (js_get T (0 XOR x ! j)) (js_get T (x ! i XOR x ! j))"
    let ?q' = "lagrangeStep p' (js_get calculatedLogarithms (0 XOR x ! j))
                (js_get calculatedLogarithms (x ! i XOR x ! j))"
    have eq: "?q = ?q'"
      using assms(1) Cons.prems by (intro cong255_lagrangeStep) (simp_all add: logsAgree_def)
    have "cong255 ?q' ?q'"
      by (cases ?q') (auto dest: lagrangeStep_le)
    with eq have "cong255 ?q ?q'" by simp
    then show ?thesis using False Cons.IH by simp
  qed
qed

lemma cong255_exps:
  "cong255 p q \<Longrightarrow> js_index calculatedExponents p = js_index calculatedExponents q"
proof (cases p; cases q)
  fix a b
  assume "cong255 p q" "p = Some a" "q = Some b"
  then have "a \<le> 255" "b \<le> 255" "a mod 255 = b mod 255" by simp_all
  then have "gexp a = gexp b" "a < 256" "b < 256"
    by (simp_all add: gexp_eq_iff)
  then show ?thesis
    using \<open>p = Some a\<close> \<open>q = Some b\<close> by (simp add: js_get_exps)
qed simp_all

lemma lagrange_with_agree:
  assumes "logsAgree T"
  shows "lagrange_with T x y = lagrange x y"
proof -
  have eq: "js_index calculatedExponents
     (fold (\<lambda>j product. if i \<noteq> j
         then lagrangeStep product (js_get T (0 XOR x ! j)) (js_get T (x ! i XOR x ! j))
         else product) js (js_get T yi))
    = js_index calculatedExponents
     (fold (\<lambda>j product. if i \<noteq> j
         then lagrangeStep product (js_get calculatedLogarithms (0 XOR x ! j))
                (js_get calculatedLogarithms (x ! i XOR x ! j))
         else product) js (js_get calculatedLogarithms yi))" for i js yi
    using assms by (intro cong255_exps lagrange_product_agree) (simp_all add: logsAgree_def)
  show ?thesis
    unfolding lagrange_def lagrange_with_def Let_def eq ..
qed


text \<open>
  C10.  The table loop runs 256 rounds while the powers of the generator have period 255:
  \<open>x\<close> is 1 again after 255 rounds and not between; the last round stores
  \<open>calculatedExponents[255] = 1\<close> and overwrites \<open>calculatedLogarithms[1]\<close>, which was 0, with
  255, and changes no other entry.  For every \<open>a\<close> from 1 to 255,
  \<open>calculatedExponents[calculatedLogarithms[a] mod 255] = a\<close>.  \<open>calculateFofX\<close> and \<open>lagrange\<close>
  return the same on the table of before the last round (where \<open>log[1] = 0\<close>) as on the
  finished one, whatever their arguments.
\<close>

theorem table_overwrite_harmless:
  "snd (snd (buildTables 255)) = 1
   \<and> (\<forall>k. 0 < k \<and> k < 255 \<longrightarrow> snd (snd (buildTables k)) \<noteq> 1)
   \<and> js_get (fst (buildTables 255)) 1 = Some 0
   \<and> js_get calculatedExponents 255 = Some 1
   \<and> js_get calculatedLogarithms 1 = Some 255
   \<and> (\<forall>a. a \<noteq> 1 \<longrightarrow> js_get calculatedLogarithms a = js_get (fst (buildTables 255)) a)
   \<and> (\<forall>a\<in>{1..255}. \<exists>l. js_get calculatedLogarithms a = Some l
          \<and> js_get calculatedExponents (l mod 255) = Some a)
   \<and> (\<forall>x coefficients.
          calculateFofX_with (fst (buildTables 255)) x coefficients = calculateFofX x coefficients)
   \<and> (\<forall>x y. lagrange_with (fst (buildTables 255)) x y = lagrange x y)"
proof (intro conjI allI impI ballI)
  show "snd (snd (buildTables 255)) = 1"
    by (simp only: x_buildTables gexp_255)
next
  fix k :: nat
  assume "0 < k \<and> k < 255"
  then show "snd (snd (buildTables k)) \<noteq> 1"
    using gexp_ne_1 [of k] by (simp only: x_buildTables) simp
next
  show "js_get (fst (buildTables 255)) 1 = Some 0"
    by (rule logs_before_last_round)
next
  show "js_get calculatedExponents 255 = Some 1"
    by (simp add: js_get_exps gexp_255 del: gexp.simps)
next
  show "js_get calculatedLogarithms 1 = Some 255"
    by (simp add: logs_last_round)
next
  fix a :: nat
  assume "a \<noteq> 1"
  then show "js_get calculatedLogarithms a = js_get (fst (buildTables 255)) a"
    by (simp add: logs_last_round)
next
  fix a :: nat
  assume "a \<in> {1..255}"
  then have a: "0 < a" "a < 256"
    by simp_all
  have "js_get calculatedExponents (glog a mod 255) = Some (gexp (glog a mod 255))"
    by (simp add: js_get_exps del: gexp.simps)
  also have "gexp (glog a mod 255) = a"
    using js_get_logs(4) [OF a] by (simp only: gexp_mod)
  finally show "\<exists>l. js_get calculatedLogarithms a = Some l
      \<and> js_get calculatedExponents (l mod 255) = Some a"
    using js_get_logs(1) [OF a] by blast
next
  fix x coefficients
  show "calculateFofX_with (fst (buildTables 255)) x coefficients = calculateFofX x coefficients"
    by (rule calculateFofX_with_agree [OF logsAgree_before])
next
  fix x y
  show "lagrange_with (fst (buildTables 255)) x y = lagrange x y"
    by (rule lagrange_with_agree [OF logsAgree_before])
qed

theorem table_overwrite_harmless_witness:
  "snd (snd (buildTables 3)) \<noteq> 1
   \<and> js_get calculatedLogarithms 2 = js_get (fst (buildTables 255)) 2
   \<and> (\<exists>l. js_get calculatedLogarithms 2 = Some l
          \<and> js_get calculatedExponents (l mod 255) = Some 2)"
proof -
  have "(0::nat) < 3 \<and> (3::nat) < 255" "(2::nat) \<noteq> 1" "(2::nat) \<in> {1..255}"
    by simp_all
  with table_overwrite_harmless show ?thesis
    by blast
qed

section \<open>Multiplication in the field\<close>

text \<open>
  The multiplication of the specification (section 4.1), read off the tables of the
  source: 0 if an operand is 0, else \<open>exp[(log[a] + log[b]) mod 255]\<close>.
\<close>

definition mul :: "nat \<Rightarrow> nat \<Rightarrow> nat" where
  "mul a b =
     (if a = 0 \<or> b = 0 then 0
      else js_int32 (js_index calculatedExponents
             (js_mod (js_add (js_get calculatedLogarithms a) (js_get calculatedLogarithms b))
                255)))"

lemma xor_byte: "a < 256 \<Longrightarrow> b < 256 \<Longrightarrow> a XOR b < (256::nat)"
proof -
  assume "a < 256" "b < 256"
  then have "take_bit 8 a = a" "take_bit 8 b = b"
    by (simp_all add: take_bit_nat_eq_self_iff)
  then have "take_bit 8 (a XOR b) = a XOR b"
    by simp
  then have "a XOR b < 2 ^ 8"
    by (simp only: take_bit_nat_eq_self_iff)
  then show ?thesis
    by simp
qed

lemma mul_gexp:
  assumes "0 < a" "a < 256" "0 < b" "b < 256"
  shows "mul a b = gexp (glog a + glog b)"
proof -
  have "mul a b = js_int32 (js_get calculatedExponents ((glog a + glog b) mod 255))"
    using assms by (simp add: mul_def js_get_logs(1))
  also have "\<dots> = gexp ((glog a + glog b) mod 255)"
  proof -
    have "(glog a + glog b) mod 255 < 255"
      by simp
    then have "(glog a + glog b) mod 255 < 256"
      by (rule less_trans) simp
    then show ?thesis
      by (simp add: js_get_exps del: gexp.simps)
  qed
  finally show ?thesis
    by (simp only: gexp_mod)
qed

lemma mul_0 [simp]: "mul 0 b = 0" "mul a 0 = 0"
  by (simp_all add: mul_def)

lemma mul_less: "a < 256 \<Longrightarrow> b < 256 \<Longrightarrow> mul a b < 256"
  using gexp_range [of "glog a + glog b"] by (cases "a = 0 \<or> b = 0") (auto simp: mul_gexp)

lemma mul_pos: "0 < a \<Longrightarrow> a < 256 \<Longrightarrow> 0 < b \<Longrightarrow> b < 256 \<Longrightarrow> 0 < mul a b"
  using gexp_range [of "glog a + glog b"] by (simp add: mul_gexp)

lemma js_add_commute: "js_add a b = js_add b a"
  by (cases a; cases b) simp_all

lemma mul_commute: "mul a b = mul b a"
  by (simp add: mul_def js_add_commute [of "js_get calculatedLogarithms a"] disj_commute)

lemma gexp_add_cong: "gexp i = gexp i' \<Longrightarrow> gexp (i + j) = gexp (i' + j)"
  unfolding gexp_eq_iff by (rule mod_add_cong) simp_all

lemma gexp_glog_gexp: "gexp (glog (gexp k) + j) = gexp (k + j)"
proof (rule gexp_add_cong)
  show "gexp (glog (gexp k)) = gexp k"
    using gexp_range [of k] js_get_logs(4) [of "gexp k"] by simp
qed

lemma mul_gexp_left:
  assumes "0 < b" "b < 256"
  shows "mul (gexp k) b = gexp (k + glog b)"
  using assms gexp_range [of k] by (simp add: mul_gexp gexp_glog_gexp del: gexp.simps)

lemma mul_assoc:
  assumes "a < 256" "b < 256" "c < 256"
  shows "mul (mul a b) c = mul a (mul b c)"
proof (cases "a = 0 \<or> b = 0 \<or> c = 0")
  case True
  then show ?thesis by auto
next
  case False
  then have pos: "0 < a" "0 < b" "0 < c" by simp_all
  have "mul (mul a b) c = mul (gexp (glog a + glog b)) c"
    using pos assms by (simp add: mul_gexp)
  also have "\<dots> = gexp (glog a + glog b + glog c)"
    using pos assms by (simp only: mul_gexp_left)
  also have "\<dots> = gexp (glog b + glog c + glog a)"
    by (simp add: add.commute add.left_commute del: gexp.simps)
  also have "\<dots> = mul (gexp (glog b + glog c)) a"
    using pos assms by (simp only: mul_gexp_left)
  also have "\<dots> = mul a (mul b c)"
    using pos assms by (simp add: mul_gexp mul_commute)
  finally show ?thesis .
qed

lemma mul_1: "a < 256 \<Longrightarrow> mul 1 a = a"
proof (cases "a = 0")
  case False
  assume "a < 256"
  with False have a: "0 < a" "a < 256" by simp_all
  have "glog (Suc 0) = 255"
    using glog_1 by simp
  then have "mul 1 a = gexp (glog a + 255)"
    using a by (simp add: mul_gexp add.commute)
  also have "\<dots> = a"
    using js_get_logs(4) [OF a] by (simp only: gexp_period)
  finally show ?thesis .
qed simp

definition ginv :: "nat \<Rightarrow> nat" where
  "ginv a = (if a = 0 then 0 else gexp (255 - glog a))"

lemma ginv_less: "ginv a < 256"
  using gexp_range [of "255 - glog a"] by (simp add: ginv_def)

lemma mul_ginv:
  assumes "0 < a" "a < 256"
  shows "mul (ginv a) a = 1"
proof -
  have "mul (ginv a) a = gexp (255 - glog a + glog a)"
    using assms by (simp add: ginv_def mul_gexp_left)
  also have "255 - glog a + glog a = 0 + 255"
    using js_get_logs(3) [OF assms] by simp
  also have "gexp (0 + 255) = 1"
    by (simp only: gexp_period) simp
  finally show ?thesis .
qed

lemma xtime_0: "xtime 0 = 0"
  by (simp add: xtime_def)

lemma xtime_funpow_0: "(xtime ^^ k) 0 = 0"
  by (induction k) (simp_all add: xtime_0)

lemma xtime_funpow_xor: "(xtime ^^ k) (a XOR b) = (xtime ^^ k) a XOR (xtime ^^ k) b"
  by (induction k) (simp_all add: xtime_xor)

lemma mul_gexp_funpow:
  assumes "b < 256"
  shows "mul (gexp k) b = (xtime ^^ k) b"
proof (cases "b = 0")
  case True
  then show ?thesis by (simp add: xtime_funpow_0)
next
  case False
  with assms have b: "0 < b" "b < 256" by simp_all
  have "mul (gexp k) b = gexp (glog b + k)"
    using b by (simp add: mul_gexp_left add.commute)
  also have "\<dots> = (xtime ^^ k) (gexp (glog b))"
    by (rule gexp_funpow)
  also have "gexp (glog b) = b"
    by (rule js_get_logs(4) [OF b])
  finally show ?thesis .
qed

lemma mul_xor_right:
  assumes "a < 256" "b < 256" "c < 256"
  shows "mul a (b XOR c) = mul a b XOR mul a c"
proof (cases "a = 0")
  case True
  then show ?thesis by simp
next
  case False
  with assms obtain k where k: "gexp k = a"
    using gexp_surj [of a] by auto
  have bc: "b XOR c < 256"
    using assms by (intro xor_byte)
  show ?thesis
    unfolding k [symmetric] mul_gexp_funpow [OF bc] mul_gexp_funpow [OF assms(2)]
      mul_gexp_funpow [OF assms(3)]
    by (rule xtime_funpow_xor)
qed


section \<open>The schoolbook product\<close>

text \<open>
  The schoolbook product of the specification: \<open>clmul\<close> adds (XOR) the shifted copies of
  \<open>b\<close> for the bits of \<open>a\<close>, without carries; \<open>polyReduce\<close> is the long division by
  \<open>0x11D\<close> of a polynomial of degree at most 14, from the top bit down.
\<close>

definition clmul :: "nat \<Rightarrow> nat \<Rightarrow> nat" where
  "clmul a b =
     fold (\<lambda>i acc. if bit a i then acc XOR push_bit i b else acc) [0, 1, 2, 3, 4, 5, 6, 7] 0"

definition polyReduce :: "nat \<Rightarrow> nat" where
  "polyReduce p =
     fold (\<lambda>k p. if bit p k then p XOR push_bit (k - 8) 0x11D else p) [14, 13, 12, 11, 10, 9, 8] p"

definition schoolbook :: "nat \<Rightarrow> nat \<Rightarrow> nat" where
  "schoolbook a b = polyReduce (clmul a b)"

lemma xor_swap4: "(s XOR t) XOR (s' XOR t') = (s XOR s') XOR (t XOR t')" for s :: nat
  by (simp add: xor.assoc xor.commute xor.left_commute)

lemma fold_select_xor_left:
  "fold (\<lambda>i acc. if bit (a XOR a') i then acc XOR f i else acc) js (s XOR s')
   = fold (\<lambda>i acc. if bit a i then acc XOR f i else acc) js s
     XOR fold (\<lambda>i acc. if bit a' i then acc XOR f i else acc) js (s' :: nat)"
  for a a' :: nat
proof (induction js arbitrary: s s')
  case Nil
  show ?case by simp
next
  case (Cons j js)
  have 1: "(s XOR s') XOR f j = (s XOR f j) XOR s'" "(s XOR s') XOR f j = s XOR (s' XOR f j)"
    "s XOR s' = (s XOR f j) XOR (s' XOR f j)"
    by (simp_all add: xor.assoc xor.commute xor.left_commute)
  show ?case
  proof (cases "bit a j"; cases "bit a' j")
    assume "bit a j" "bit a' j"
    then show ?thesis
      using Cons [of "s XOR f j" "s' XOR f j"] by (simp add: bit_xor_iff 1(3) [symmetric])
  next
    assume "bit a j" "\<not> bit a' j"
    then show ?thesis
      using Cons [of "s XOR f j" "s'"] by (simp add: bit_xor_iff 1(1))
  next
    assume "\<not> bit a j" "bit a' j"
    then show ?thesis
      using Cons [of "s" "s' XOR f j"] by (simp add: bit_xor_iff 1(2))
  next
    assume "\<not> bit a j" "\<not> bit a' j"
    then show ?thesis
      using Cons [of "s" "s'"] by (simp add: bit_xor_iff)
  qed
qed

lemma fold_select_xor_right:
  "fold (\<lambda>i acc. if bit a i then acc XOR push_bit i (b XOR b') else acc) js (s XOR s')
   = fold (\<lambda>i acc. if bit a i then acc XOR push_bit i b else acc) js s
     XOR fold (\<lambda>i acc. if bit a i then acc XOR push_bit i b' else acc) js (s' :: nat)"
  for a b b' :: nat
proof (induction js arbitrary: s s')
  case Nil
  show ?case by simp
next
  case (Cons j js)
  show ?case
    using Cons [of "s XOR push_bit j b" "s' XOR push_bit j b'"] Cons [of s s']
    by (simp add: xor_swap4)
qed

lemma clmul_xor_left: "clmul (a XOR a') b = clmul a b XOR clmul a' b"
  unfolding clmul_def
  using fold_select_xor_left [of a a' "\<lambda>i. push_bit i b" "[0, 1, 2, 3, 4, 5, 6, 7]" 0 0]
  by (simp only: xor_self_eq)

lemma clmul_xor_right: "clmul a (b XOR b') = clmul a b XOR clmul a b'"
  unfolding clmul_def
  using fold_select_xor_right [of a b b' "[0, 1, 2, 3, 4, 5, 6, 7]" 0 0]
  by (simp only: xor_self_eq)

lemma fold_reduce_xor:
  "fold (\<lambda>k p. if bit p k then p XOR m k else p) ks (p XOR q)
   = fold (\<lambda>k p. if bit p k then p XOR m k else p) ks p
     XOR fold (\<lambda>k p. if bit p k then p XOR m k else p) ks (q :: nat)"
proof (induction ks arbitrary: p q)
  case Nil
  show ?case by simp
next
  case (Cons k ks)
  have 1: "(p XOR q) XOR m k = (p XOR m k) XOR q" "(p XOR q) XOR m k = p XOR (q XOR m k)"
    "p XOR q = (p XOR m k) XOR (q XOR m k)"
    by (simp_all add: xor.assoc xor.commute xor.left_commute)
  show ?case
  proof (cases "bit p k"; cases "bit q k")
    assume "bit p k" "bit q k"
    then show ?thesis
      using Cons [of "p XOR m k" "q XOR m k"] by (simp add: bit_xor_iff 1(3) [symmetric])
  next
    assume "bit p k" "\<not> bit q k"
    then show ?thesis
      using Cons [of "p XOR m k" q] by (simp add: bit_xor_iff 1(1))
  next
    assume "\<not> bit p k" "bit q k"
    then show ?thesis
      using Cons [of p "q XOR m k"] by (simp add: bit_xor_iff 1(2))
  next
    assume "\<not> bit p k" "\<not> bit q k"
    then show ?thesis
      using Cons [of p q] by (simp add: bit_xor_iff)
  qed
qed

lemma polyReduce_xor: "polyReduce (p XOR q) = polyReduce p XOR polyReduce q"
  unfolding polyReduce_def by (rule fold_reduce_xor)

lemma schoolbook_xor_left: "schoolbook (a XOR a') b = schoolbook a b XOR schoolbook a' b"
  by (simp add: schoolbook_def clmul_xor_left polyReduce_xor)

lemma schoolbook_xor_right: "schoolbook a (b XOR b') = schoolbook a b XOR schoolbook a b'"
  by (simp add: schoolbook_def clmul_xor_right polyReduce_xor)

lemma byte_linear_ext:
  fixes f g :: "nat \<Rightarrow> nat"
  assumes f: "\<And>a b. a < 256 \<Longrightarrow> b < 256 \<Longrightarrow> f (a XOR b) = f a XOR f b"
    and g: "\<And>a b. a < 256 \<Longrightarrow> b < 256 \<Longrightarrow> g (a XOR b) = g a XOR g b"
    and basis: "\<And>i. i < 8 \<Longrightarrow> f (2 ^ i) = g (2 ^ i)"
    and a: "a < 256"
  shows "f a = g a"
proof -
  have f0: "f 0 = 0" using f [of 0 0] by simp
  have g0: "g 0 = 0" using g [of 0 0] by simp
  have "n \<le> 8 \<Longrightarrow> a < 2 ^ n \<Longrightarrow> f a = g a" for n a
  proof (induction n arbitrary: a)
    case 0
    then show ?case by (simp add: f0 g0)
  next
    case (Suc n)
    define r where "r = take_bit n a"
    have r: "r < 2 ^ n" by (simp add: r_def)
    have n8: "n < 8" using Suc.prems by simp
    have p256: "(2::nat) ^ n < 256"
      using power_strict_increasing [of n 8 "2::nat"] n8 by simp
    have r256: "r < 256" using r p256 by simp
    have ih: "f r = g r" using Suc.IH [of r] Suc.prems r by simp
    have "take_bit (Suc n) a = a"
      using Suc.prems by (simp only: take_bit_nat_eq_self_iff)
    then have a_eq: "a = 2 ^ n * of_bool (bit a n) + r"
      by (simp only: take_bit_Suc_from_most r_def)
    show ?case
    proof (cases "bit a n")
      case False
      with a_eq ih show ?thesis by simp
    next
      case True
      have "(2::nat) ^ n AND r = 0"
        unfolding r_def by (rule bit_eqI) (simp add: bit_simps)
      then have "2 ^ n + r = 2 ^ n XOR r"
        by (rule disjunctive_add_eq_xor)
      with a_eq True have "a = 2 ^ n XOR r" by simp
      then show ?thesis
        using f [OF p256 r256] g [OF p256 r256] basis [OF n8] ih by simp
    qed
  qed
  from this [of 8 a] a show ?thesis by simp
qed

lemma expCycle_take:
  "take 15 expCycle = [1, 2, 4, 8, 16, 32, 64, 128, 29, 58, 116, 232, 205, 135, 19]"
  unfolding expCycle_def by simp

lemma polyReduce_values:
  "polyReduce 1 = 1 \<and> polyReduce 2 = 2 \<and> polyReduce 4 = 4 \<and> polyReduce 8 = 8
   \<and> polyReduce 16 = 16 \<and> polyReduce 32 = 32 \<and> polyReduce 64 = 64 \<and> polyReduce 128 = 128
   \<and> polyReduce 256 = 29 \<and> polyReduce 512 = 58 \<and> polyReduce 1024 = 116
   \<and> polyReduce 2048 = 232 \<and> polyReduce 4096 = 205 \<and> polyReduce 8192 = 135
   \<and> polyReduce 16384 = 19"
  unfolding polyReduce_def by (simp add: bit_iff_odd)

lemma pow_values:
  "map (\<lambda>n. 2 ^ n) [0..<15]
   = [1, 2, 4, 8, 16, 32, 64, 128, 256, 512, 1024, 2048, 4096, 8192, 16384::nat]"
  by (simp add: upt_rec)

lemma polyReduce_pow:
  assumes "n < 15"
  shows "polyReduce (2 ^ n) = gexp n"
proof -
  define ps :: "nat list"
    where "ps = [1, 2, 4, 8, 16, 32, 64, 128, 256, 512, 1024, 2048, 4096, 8192, 16384]"
  have len: "length ps = 15"
    by (simp add: ps_def)
  have ps: "ps = map (\<lambda>n. 2 ^ n) [0..<15]"
    unfolding ps_def by (rule pow_values [symmetric])
  have "2 ^ n = ps ! n"
    unfolding ps using assms by (simp del: upt_rec_numeral)
  then have "polyReduce (2 ^ n) = map polyReduce ps ! n"
    using assms len by simp
  also have "map polyReduce ps = take 15 expCycle"
    unfolding ps_def expCycle_take using polyReduce_values by simp
  also have "take 15 expCycle ! n = expCycle ! n"
    using assms by simp
  also have "\<dots> = gexp n"
    using assms by (simp add: expCycle_nth del: gexp.simps)
  finally show ?thesis .
qed

lemma gexp_low:
  assumes "i < 8"
  shows "gexp i = 2 ^ i"
proof -
  have "gexp i = expCycle ! i"
    using assms by (simp add: expCycle_nth del: gexp.simps)
  also have "\<dots> = take 15 expCycle ! i"
    using assms by simp
  also have "\<dots> = take 8 (take 15 expCycle) ! i"
    using assms by simp
  also have "take 8 (take 15 expCycle) = take 8 (map (\<lambda>n. 2 ^ n) [0..<15])"
    unfolding expCycle_take pow_values by simp
  also have "\<dots> ! i = map (\<lambda>n. 2 ^ n) [0..<15] ! i"
    using assms by simp
  also have "\<dots> = 2 ^ i"
    using assms by (simp del: upt_rec_numeral)
  finally show ?thesis .
qed

lemma idx8: "[0, 1, 2, 3, 4, 5, 6, 7] = [0..<8]"
  by (simp add: upt_rec)

lemma fold_select_single:
  "distinct js \<Longrightarrow>
   fold (\<lambda>k acc. if k = i then acc XOR f k else acc) js s = (if i \<in> set js then s XOR f i else s)"
  by (induction js arbitrary: s) auto

lemma clmul_pow:
  assumes "i < 8"
  shows "clmul (2 ^ i) b = push_bit i b"
proof -
  have "clmul (2 ^ i) b
      = fold (\<lambda>k acc. if k = i then acc XOR push_bit k b else acc) [0..<8] 0"
    unfolding clmul_def idx8 by (simp add: bit_exp_iff del: upt_rec_numeral)
  also have "\<dots> = (if i \<in> set [0..<8] then 0 XOR push_bit i b else 0)"
    by (rule fold_select_single) (rule distinct_upt)
  finally show ?thesis
    using assms by (simp del: upt_rec_numeral)
qed

lemma schoolbook_basis: "i < 8 \<Longrightarrow> j < 8 \<Longrightarrow> schoolbook (2 ^ i) (2 ^ j) = gexp (i + j)"
proof -
  assume ij: "i < 8" "j < 8"
  have "push_bit i ((2::nat) ^ j) = 2 ^ (i + j)"
    by (simp add: push_bit_eq_mult power_add mult.commute)
  with ij have "schoolbook (2 ^ i) (2 ^ j) = polyReduce (2 ^ (i + j))"
    by (simp only: schoolbook_def clmul_pow)
  also have "\<dots> = gexp (i + j)"
    using ij by (intro polyReduce_pow) simp
  finally show ?thesis .
qed

lemma mul_basis: "i < 8 \<Longrightarrow> j < 8 \<Longrightarrow> mul (2 ^ i) (2 ^ j) = gexp (i + j)"
proof -
  assume ij: "i < 8" "j < 8"
  have "mul (2 ^ i) (2 ^ j) = mul (gexp i) (gexp j)"
    using ij by (simp only: gexp_low)
  also have "\<dots> = gexp (i + glog (gexp j))"
    using gexp_range [of j] by (intro mul_gexp_left) simp_all
  also have "\<dots> = gexp (glog (gexp j) + i)"
    by (simp only: add.commute)
  also have "\<dots> = gexp (j + i)"
    by (rule gexp_glog_gexp)
  finally show ?thesis by (simp only: add.commute)
qed

lemma pow_byte: "i < 8 \<Longrightarrow> (2::nat) ^ i < 256"
  using power_strict_increasing [of i 8 "2::nat"] by simp

lemma mul_eq_schoolbook:
  assumes "a < 256" "b < 256"
  shows "mul a b = schoolbook a b"
proof -
  have col: "mul a (2 ^ j) = schoolbook a (2 ^ j)" if j: "j < 8" for j
  proof (rule byte_linear_ext [where f = "\<lambda>a. mul a (2 ^ j)" and g = "\<lambda>a. schoolbook a (2 ^ j)"])
    fix x y :: nat
    assume "x < 256" "y < 256"
    then show "mul (x XOR y) (2 ^ j) = mul x (2 ^ j) XOR mul y (2 ^ j)"
      using mul_xor_right [OF pow_byte [OF j], of x y] by (simp only: mul_commute)
    show "schoolbook (x XOR y) (2 ^ j) = schoolbook x (2 ^ j) XOR schoolbook y (2 ^ j)"
      by (rule schoolbook_xor_left)
  next
    fix i :: nat
    assume "i < 8"
    then show "mul (2 ^ i) (2 ^ j) = schoolbook (2 ^ i) (2 ^ j)"
      using j by (simp only: mul_basis schoolbook_basis)
  qed (rule assms(1))
  show ?thesis
  proof (rule byte_linear_ext [where f = "mul a" and g = "schoolbook a"])
    fix x y :: nat
    assume "x < 256" "y < 256"
    then show "mul a (x XOR y) = mul a x XOR mul a y"
      by (rule mul_xor_right [OF assms(1)])
    show "schoolbook a (x XOR y) = schoolbook a x XOR schoolbook a y"
      by (rule schoolbook_xor_right)
  qed (rule col, assumption, rule assms(2))
qed


text \<open>
  C3.  For all \<open>a\<close>, \<open>b\<close>, \<open>c\<close> in \<open>[0,255]\<close>, the table multiplication \<open>mul a b\<close> is the
  carry-less schoolbook product of \<open>a\<close> and \<open>b\<close> reduced modulo \<open>0x11D\<close>; it is commutative
  and distributes over XOR.
\<close>

theorem mul_schoolbook_commutative_distributive:
  assumes "a < 256" "b < 256" "c < 256"
  shows "mul a b = schoolbook a b \<and> mul a b = mul b a \<and> mul a (b XOR c) = mul a b XOR mul a c"
proof (intro conjI)
  show "mul a b = schoolbook a b"
    by (rule mul_eq_schoolbook [OF assms(1,2)])
  show "mul a b = mul b a"
    by (rule mul_commute)
  show "mul a (b XOR c) = mul a b XOR mul a c"
    by (rule mul_xor_right [OF assms])
qed

theorem mul_schoolbook_commutative_distributive_witness:
  "mul 87 131 = schoolbook 87 131 \<and> mul 87 131 = mul 131 87
   \<and> mul 87 (131 XOR 19) = mul 87 131 XOR mul 87 19"
  by (rule mul_schoolbook_commutative_distributive) simp_all

end
